theory Spec2Isabelle
  imports Main "HOL-Library.Char_ord" "HOL-Library.List_Lexorder"
begin

section \<open>Music Archiver: history parsing, matching and fetch orchestration\<close>

text \<open>
  A shallow embedding of \<^verbatim>\<open>music-archiver.ts\<close>. Strings are lists of characters;
  \<^verbatim>\<open>string | null\<close> is \<open>string option\<close>; a JavaScript \<^verbatim>\<open>Map\<close>, which iterates
  in insertion order, is an association list; a thrown exception is a branch of the
  result. The default \<^verbatim>\<open>Array.prototype.sort()\<close> on strings is the lexicographic
  order on code units, which is the order of \<open>HOL-Library.List_Lexorder\<close> over
  \<open>HOL-Library.Char_ord\<close>.
\<close>

subsection \<open>Data model\<close>

record OutputTrack =
  timestamps :: "string list"
  track_name :: "string option"
  artist_name :: "string option"
  album_name :: "string option"
  spotify_track_uri :: string

text \<open>The fields of \<^verbatim>\<open>SpotifyTrack\<close> that the program reads.\<close>

record SpotifyTrack =
  ts :: string
  master_metadata_track_name :: "string option"
  master_metadata_album_artist_name :: "string option"
  master_metadata_album_album_name :: "string option"
  spotify_track_uri :: "string option"

subsection \<open>JavaScript values and the insertion-ordered Map\<close>

text \<open>Truthiness of a \<^verbatim>\<open>string | null\<close> value: null and the empty string are falsy.\<close>

definition truthy :: "string option \<Rightarrow> bool" where
  "truthy v = (case v of None \<Rightarrow> False | Some s \<Rightarrow> s \<noteq> [])"

text \<open>How a template literal renders a \<^verbatim>\<open>string | null\<close> value.\<close>

definition render :: "string option \<Rightarrow> string" where
  "render v = (case v of None \<Rightarrow> ''null'' | Some s \<Rightarrow> s)"

definition startsWith :: "string \<Rightarrow> string \<Rightarrow> bool" where
  "startsWith s p = (take (length p) s = p)"

definition endsWith :: "string \<Rightarrow> string \<Rightarrow> bool" where
  "endsWith s p = (length p \<le> length s \<and> drop (length s - length p) s = p)"

fun map_get :: "('k \<times> 'v) list \<Rightarrow> 'k \<Rightarrow> 'v option" where
  "map_get [] k = None"
| "map_get ((k', v) # m) k = (if k' = k then Some v else map_get m k)"

definition map_has :: "('k \<times> 'v) list \<Rightarrow> 'k \<Rightarrow> bool" where
  "map_has m k = (map_get m k \<noteq> None)"

text \<open>\<^verbatim>\<open>Map.set\<close>: a present key keeps its place and takes the new value, a new key goes last.\<close>

fun map_set :: "'k \<Rightarrow> 'v \<Rightarrow> ('k \<times> 'v) list \<Rightarrow> ('k \<times> 'v) list" where
  "map_set k v [] = [(k, v)]"
| "map_set k v ((k', v') # m) = (if k' = k then (k, v) # m else (k', v') # map_set k v m)"

definition map_values :: "('k \<times> 'v) list \<Rightarrow> 'v list" where
  "map_values m = map snd m"

subsection \<open>Deduplicator\<close>

definition dedup_key :: "OutputTrack \<Rightarrow> string" where
  "dedup_key track = render (artist_name track) @ ''|'' @ render (track_name track)"

fun dedup_loop :: "OutputTrack list \<Rightarrow> (string \<times> OutputTrack) list \<Rightarrow> (string \<times> OutputTrack) list" where
  "dedup_loop [] uniqueTracks = uniqueTracks"
| "dedup_loop (track # tracks) uniqueTracks =
     (let key = dedup_key track in
      if \<not> map_has uniqueTracks key then dedup_loop tracks (map_set key track uniqueTracks)
      else dedup_loop tracks uniqueTracks)"

definition deduplicateTracks :: "OutputTrack list \<Rightarrow> OutputTrack list" where
  "deduplicateTracks tracks = map_values (dedup_loop tracks [])"

subsection \<open>History parser\<close>

text \<open>
  What \<^verbatim>\<open>JSON.parse\<close> can hand to the loop over a file: an array whose elements are
  objects (read through the \<^verbatim>\<open>SpotifyTrack\<close> fields) or \<^verbatim>\<open>null\<close>, on which the
  property access \<^verbatim>\<open>track.spotify_track_uri\<close> throws. A file that cannot be read, is
  not JSON or is not iterable throws before any element is seen.
\<close>

datatype json_element = Track SpotifyTrack | JsonNull

datatype file_content = Unparseable | JsonArray "json_element list"

record dir_entry =
  name :: string
  isFile :: bool
  content :: file_content

datatype directory = Unreadable | Listing "dir_entry list"

datatype error = NoHistoryFilesFound | DirectoryReadError | InvalidHistoryFileFormat | FileReadError

text \<open>The body of the loop over one file's elements (lines 179 to 193).\<close>

definition add_track :: "SpotifyTrack \<Rightarrow> (string \<times> OutputTrack) list \<Rightarrow> (string \<times> OutputTrack) list" where
  "add_track track trackMap =
     (if truthy (SpotifyTrack.spotify_track_uri track) then
        (let uri = the (SpotifyTrack.spotify_track_uri track) in
         case map_get trackMap uri of
           Some existing \<Rightarrow>
             map_set uri (existing\<lparr>timestamps := timestamps existing @ [ts track]\<rparr>) trackMap
         | None \<Rightarrow>
             map_set uri
               \<lparr>timestamps = [ts track],
                track_name = master_metadata_track_name track,
                artist_name = master_metadata_album_artist_name track,
                album_name = master_metadata_album_album_name track,
                OutputTrack.spotify_track_uri = uri\<rparr> trackMap)
      else trackMap)"

text \<open>
  The loop over one file. The flag is False when an element threw: the map keeps what
  the elements before it added, and \<^verbatim>\<open>filesProcessed++\<close> is not reached.
\<close>

fun process_elements :: "json_element list \<Rightarrow> (string \<times> OutputTrack) list \<Rightarrow> (string \<times> OutputTrack) list \<times> bool" where
  "process_elements [] trackMap = (trackMap, True)"
| "process_elements (JsonNull # es) trackMap = (trackMap, False)"
| "process_elements (Track track # es) trackMap = process_elements es (add_track track trackMap)"

definition is_history_file :: "dir_entry \<Rightarrow> bool" where
  "is_history_file d =
     (isFile d \<and> startsWith (dir_entry.name d) ''Streaming_History_Audio_'' \<and>
      endsWith (dir_entry.name d) ''.json'')"

text \<open>The loop over the directory, on the state (trackMap, filesProcessed).\<close>

fun scan_directory :: "dir_entry list \<Rightarrow> (string \<times> OutputTrack) list \<times> nat \<Rightarrow> (string \<times> OutputTrack) list \<times> nat" where
  "scan_directory [] st = st"
| "scan_directory (d # ds) (trackMap, filesProcessed) =
     (if is_history_file d then
        (case content d of
           Unparseable \<Rightarrow> scan_directory ds (trackMap, filesProcessed)
         | JsonArray es \<Rightarrow>
             (case process_elements es trackMap of
                (trackMap', True) \<Rightarrow> scan_directory ds (trackMap', filesProcessed + 1)
              | (trackMap', False) \<Rightarrow> scan_directory ds (trackMap', filesProcessed)))
      else scan_directory ds (trackMap, filesProcessed))"

text \<open>
  \<^verbatim>\<open>Array.from(trackMap.values()).map(...)\<close> with each timestamp list sorted (lines 207
  to 213), the argument of the deduplicator.
\<close>

definition aggregated_tracks :: "(string \<times> OutputTrack) list \<Rightarrow> OutputTrack list" where
  "aggregated_tracks trackMap =
     map (\<lambda>data. \<lparr>timestamps = sort (timestamps data),
                  track_name = track_name data,
                  artist_name = artist_name data,
                  album_name = album_name data,
                  OutputTrack.spotify_track_uri = OutputTrack.spotify_track_uri data\<rparr>)
         (map_values trackMap)"

text \<open>
  \<^verbatim>\<open>.sort((a, b) => b.timestamps.length - a.timestamps.length)\<close>. The sort of the
  language is stable, and a stable sort has one result, that of the insertion sort
  \<open>sort_key\<close> on the negated count.
\<close>

definition sort_by_play_count :: "OutputTrack list \<Rightarrow> OutputTrack list" where
  "sort_by_play_count tracks = sort_key (\<lambda>t. - int (length (timestamps t))) tracks"

text \<open>
  The parser. The optional write of the result to \<^verbatim>\<open>historyJsonPath\<close> and the console
  output are not modelled.
\<close>

definition parseSpotifyStreamingHistory :: "directory \<Rightarrow> error + OutputTrack list" where
  "parseSpotifyStreamingHistory dir =
     (case dir of
        Unreadable \<Rightarrow> Inl DirectoryReadError
      | Listing ds \<Rightarrow>
          (case scan_directory ds ([], 0) of
             (trackMap, filesProcessed) \<Rightarrow>
               if filesProcessed = 0 then Inl NoHistoryFilesFound
               else Inr (sort_by_play_count (deduplicateTracks (aggregated_tracks trackMap)))))"

text \<open>
  The loader of an already serialised sequence: the parsed value is returned as it is
  when it is an array, with no look at its elements.
\<close>

datatype history_file = HistoryUnreadable | JsonNotArray | JsonTracks "OutputTrack list"

definition parseSpotifyHistoryFile :: "history_file \<Rightarrow> error + OutputTrack list" where
  "parseSpotifyHistoryFile f =
     (case f of
        HistoryUnreadable \<Rightarrow> Inl FileReadError
      | JsonNotArray \<Rightarrow> Inl InvalidHistoryFileFormat
      | JsonTracks tracks \<Rightarrow> Inr tracks)"

subsection \<open>Strings of the matcher and of the file names\<close>

text \<open>
  Characters are code units below 256. \<^verbatim>\<open>toLowerCase\<close> maps A to Z and the capital
  letters of Latin-1 to their small forms; white space (for \<^verbatim>\<open>trim\<close> and \<^verbatim>\<open>\s\<close>) is
  tab, line feed, vertical tab, form feed, carriage return, space and no-break space.
\<close>

definition lower_char :: "char \<Rightarrow> char" where
  "lower_char c =
     (let n = (of_char c :: nat) in
      if (65 \<le> n \<and> n \<le> 90) \<or> (192 \<le> n \<and> n \<le> 222 \<and> n \<noteq> 215) then char_of (n + 32) else c)"

definition toLowerCase :: "string \<Rightarrow> string" where
  "toLowerCase s = map lower_char s"

definition is_space :: "char \<Rightarrow> bool" where
  "is_space c = ((of_char c :: nat) \<in> {9, 10, 11, 12, 13, 32, 160})"

definition trim :: "string \<Rightarrow> string" where
  "trim s = rev (dropWhile is_space (rev (dropWhile is_space s)))"

fun str_includes :: "string \<Rightarrow> string \<Rightarrow> bool" where
  "str_includes [] k = (k = [])"
| "str_includes (c # s) k = (startsWith (c # s) k \<or> str_includes s k)"

text \<open>\<^verbatim>\<open>String.prototype.split\<close> on a one-character separator.\<close>

fun split_on :: "char \<Rightarrow> string \<Rightarrow> string list" where
  "split_on sep [] = [Nil]"
| "split_on sep (c # s) =
     (if c = sep then [] # split_on sep s
      else (case split_on sep s of [] \<Rightarrow> [c # Nil] | seg # segs \<Rightarrow> (c # seg) # segs))"

subsection \<open>Configuration\<close>

record Config =
  minWaitTime :: int
  maxWaitTime :: int
  outputDir :: string
  audioFormat :: string
  verbose :: bool
  useCookieFile :: bool
  maxDuration :: int
  blacklistedKeywords :: "string list"
  saveHistoryJson :: bool
  historyJsonPath :: "string option"

text \<open>
  The keyword list as \<^verbatim>\<open>parseCliArguments\<close> builds it from the \<^verbatim>\<open>--blacklist\<close> flag
  (lines 645 to 647): absent or empty gives no keyword.
\<close>

definition parse_blacklist :: "string option \<Rightarrow> string list" where
  "parse_blacklist flag =
     (if truthy flag then map (\<lambda>k. toLowerCase (trim k)) (split_on (CHR '','') (the flag)) else [])"

subsection \<open>Catalog matcher\<close>

record YTArtist =
  name :: string
  channel_id :: "string option"

record DLSongDuration =
  display_text :: string
  seconds :: int

record DLSongThumbnail =
  url :: string
  width :: int
  height :: int

record YTAlbum =
  album_id :: "string option"
  album_title :: "string option"

text \<open>\<^verbatim>\<open>YTMusicSong\<close>: every field may be absent. The field \<^verbatim>\<open>id\<close> is \<open>song_id\<close> here.\<close>

record YTMusicSong =
  song_id :: "string option"
  title :: "string option"
  thumbnails :: "DLSongThumbnail list option"
  duration :: "DLSongDuration option"
  album :: "YTAlbum option"
  artists :: "YTArtist list option"

text \<open>\<^verbatim>\<open>DLSongResult\<close>, its fields prefixed with \<open>dl\<close>.\<close>

record DLSongResult =
  dl_id :: string
  dl_title :: string
  dl_thumbnails :: "DLSongThumbnail list"
  dl_duration :: DLSongDuration
  dl_album :: "string \<times> string"
  dl_artists :: "(string \<times> string) list"

text \<open>The predicate of \<^verbatim>\<open>songs.find\<close> in \<^verbatim>\<open>selectBestMatch\<close> (lines 290 to 293).\<close>

definition exact_match :: "string \<Rightarrow> string \<Rightarrow> YTMusicSong \<Rightarrow> bool" where
  "exact_match normalizedTitle normalizedArtist song =
     ((case title song of None \<Rightarrow> False | Some t \<Rightarrow> trim (toLowerCase t) = normalizedTitle) \<and>
      (case artists song of None \<Rightarrow> False
       | Some as \<Rightarrow> list_ex (\<lambda>a. trim (toLowerCase (name a)) = normalizedArtist) as))"

definition selectBestMatch :: "YTMusicSong list \<Rightarrow> string \<Rightarrow> string \<Rightarrow> YTMusicSong option" where
  "selectBestMatch songs targetTitle targetArtist =
     (let normalizedTitle = trim (toLowerCase targetTitle);
          normalizedArtist = trim (toLowerCase targetArtist)
      in case find (exact_match normalizedTitle normalizedArtist) songs of
           Some exactMatch \<Rightarrow> Some exactMatch
         | None \<Rightarrow>
             (case songs of
                [] \<Rightarrow> None
              | firstResult # rest \<Rightarrow>
                  if truthy (title firstResult) \<and>
                     (case artists firstResult of None \<Rightarrow> False | Some as \<Rightarrow> as \<noteq> [])
                  then Some firstResult else None))"

definition shouldSkipSong :: "Config \<Rightarrow> YTMusicSong \<Rightarrow> bool" where
  "shouldSkipSong cfg song =
     (let exceedsMaxDuration =
            (case duration song of None \<Rightarrow> False
             | Some d \<Rightarrow> seconds d \<noteq> 0 \<and> seconds d > maxDuration cfg);
          containsBlacklistedKeywords =
            list_ex (\<lambda>keyword.
               (case title song of None \<Rightarrow> False | Some t \<Rightarrow> str_includes (toLowerCase t) keyword) \<or>
               (case artists song of None \<Rightarrow> False
                | Some as \<Rightarrow> list_ex (\<lambda>a. str_includes (toLowerCase (name a)) keyword) as))
              (blacklistedKeywords cfg)
      in exceedsMaxDuration \<or> containsBlacklistedKeywords)"

definition formatSongResult :: "YTMusicSong \<Rightarrow> DLSongResult option" where
  "formatSongResult song =
     (if \<not> truthy (song_id song) \<or> \<not> truthy (title song) \<or> duration song = None then None
      else Some
        \<lparr>dl_id = the (song_id song),
         dl_title = the (title song),
         dl_thumbnails = (case thumbnails song of None \<Rightarrow> [] | Some ths \<Rightarrow> ths),
         dl_duration = the (duration song),
         dl_album =
           (case album song of None \<Rightarrow> ([], [])
            | Some al \<Rightarrow> (if truthy (album_id al) then the (album_id al) else [],
                          if truthy (album_title al) then the (album_title al) else [])),
         dl_artists =
           (case artists song of None \<Rightarrow> []
            | Some as \<Rightarrow> map (\<lambda>a. (if truthy (channel_id a) then the (channel_id a) else [], name a)) as)\<rparr>)"

text \<open>
  The external search, a parameter: the songs of the response (none when the response
  has no content) or a failure, which the matcher catches.
\<close>

datatype search_response = SearchThrows | SearchSongs "YTMusicSong list"

definition searchYouTubeMusic ::
  "Config \<Rightarrow> (string \<Rightarrow> search_response) \<Rightarrow> string \<Rightarrow> string \<Rightarrow> DLSongResult option" where
  "searchYouTubeMusic cfg search ttl artist =
     (if trim ttl = [] \<or> trim artist = [] then None
      else case search (ttl @ '' '' @ artist) of
             SearchThrows \<Rightarrow> None
           | SearchSongs songs \<Rightarrow>
               if songs = [] then None
               else (case selectBestMatch songs ttl artist of
                       None \<Rightarrow> None
                     | Some song \<Rightarrow> if shouldSkipSong cfg song then None else formatSongResult song))"

subsection \<open>File names and the scanner of existing output\<close>

definition illegal_filename_char :: "char \<Rightarrow> bool" where
  "illegal_filename_char c =
     (c \<in> set [CHR ''<'', CHR ''>'', CHR '':'', CHR 0x22, CHR ''/'', CHR 0x5C, CHR ''|'', CHR ''?'',
               CHR ''*''])"

text \<open>
  \<^verbatim>\<open>replace(/\s+/g, ' ')\<close>: every maximal run of white space becomes one space. The flag
  says that the character before was white space.
\<close>

fun collapse_spaces :: "bool \<Rightarrow> string \<Rightarrow> string" where
  "collapse_spaces in_run [] = []"
| "collapse_spaces in_run (c # s) =
     (if is_space c then (if in_run then collapse_spaces True s else CHR '' '' # collapse_spaces True s)
      else c # collapse_spaces False s)"

definition sanitizeFilename :: "string \<Rightarrow> string" where
  "sanitizeFilename filename =
     take 200 (trim (collapse_spaces False (filter (\<lambda>c. \<not> illegal_filename_char c) filename)))"

definition generateFilename :: "string \<Rightarrow> string \<Rightarrow> string \<Rightarrow> string \<Rightarrow> string" where
  "generateFilename trackName artistName ytId trackId =
     (let sanitizedTitle = sanitizeFilename trackName;
          sanitizedArtist = sanitizeFilename artistName
      in sanitizedTitle @ ''___'' @ sanitizedArtist @ ''__ytId__'' @ ytId @ ''___trackId_'' @ trackId)"


text \<open>
  \<^verbatim>\<open>name.match(/<marker>([^.]+)\./)\<close> for a literal marker. At one start position the
  pattern matches when the marker is there, followed by at least one character other
  than a dot and then a dot; the group is the whole run of such characters (a shorter
  run is followed by a character of the run, not by a dot). The match is the leftmost.
\<close>

definition capture_at :: "string \<Rightarrow> string \<Rightarrow> string option" where
  "capture_at marker s =
     (if startsWith s marker then
        (let rest = drop (length marker) s;
             grp = takeWhile (\<lambda>c. c \<noteq> CHR ''.'') rest
         in if grp \<noteq> [] \<and> dropWhile (\<lambda>c. c \<noteq> CHR ''.'') rest \<noteq> [] then Some grp else None)
      else None)"

fun regex_capture :: "string \<Rightarrow> string \<Rightarrow> string option" where
  "regex_capture marker [] = capture_at marker []"
| "regex_capture marker (c # s) =
     (case capture_at marker (c # s) of Some grp \<Rightarrow> Some grp | None \<Rightarrow> regex_capture marker s)"

text \<open>A failure to read the output directory gives the empty set.\<close>

definition scanOutputDirectory :: "Config \<Rightarrow> string \<Rightarrow> directory \<Rightarrow> string set" where
  "scanOutputDirectory cfg marker dir =
     (case dir of
        Unreadable \<Rightarrow> {}
      | Listing ds \<Rightarrow>
          set (List.map_filter
                 (\<lambda>d. if isFile d \<and> endsWith (dir_entry.name d) (''.'' @ audioFormat cfg)
                      then regex_capture marker (dir_entry.name d) else None) ds))"

definition getExistingTrackIds :: "Config \<Rightarrow> directory \<Rightarrow> string set" where
  "getExistingTrackIds cfg dir = scanOutputDirectory cfg ''___trackId_'' dir"

definition getExistingYtIds :: "Config \<Rightarrow> directory \<Rightarrow> string set" where
  "getExistingYtIds cfg dir = scanOutputDirectory cfg ''__ytId__'' dir"

subsection \<open>Fetch orchestrator\<close>

text \<open>
  What the world answers while one item is processed: the search, whether the
  downloader reports success (a failure to start it counts as none), whether the
  output file is there afterwards, and the number of milliseconds that
  \<^verbatim>\<open>getRandomWaitTime()\<close> returns. That number is
  \<^verbatim>\<open>Math.floor(Math.random() * (maxWaitTime - minWaitTime + 1) + minWaitTime) * 1000\<close>,
  computed in double-precision floating point from a random draw: the arithmetic of
  doubles is not modelled, so the number is taken as it comes and nothing is said of
  its bounds or its distribution.
\<close>

record item_world =
  search :: "string \<Rightarrow> search_response"
  ytdlp_success :: bool
  file_created :: bool
  waitTime :: int









subsection \<open>Notions used to state the properties\<close>

text \<open>
  The listening events that the parser folds, in processing order: of every history
  file of the listing, the elements before the first one that throws.
\<close>

fun elements_before_null :: "json_element list \<Rightarrow> SpotifyTrack list" where
  "elements_before_null [] = []"
| "elements_before_null (JsonNull # es) = []"
| "elements_before_null (Track track # es) = track # elements_before_null es"

fun completes :: "json_element list \<Rightarrow> bool" where
  "completes [] = True"
| "completes (JsonNull # es) = False"
| "completes (Track track # es) = completes es"

definition processed_events :: "dir_entry list \<Rightarrow> SpotifyTrack list" where
  "processed_events ds =
     concat (map (\<lambda>d. if is_history_file d
                       then (case content d of Unparseable \<Rightarrow> [] | JsonArray es \<Rightarrow> elements_before_null es)
                       else []) ds)"

text \<open>A history file that the loop processes to its end.\<close>

definition processed_file :: "dir_entry \<Rightarrow> bool" where
  "processed_file d =
     (is_history_file d \<and> (case content d of Unparseable \<Rightarrow> False | JsonArray es \<Rightarrow> completes es))"

definition events_of :: "string \<Rightarrow> SpotifyTrack list \<Rightarrow> SpotifyTrack list" where
  "events_of uri evs = filter (\<lambda>e. SpotifyTrack.spotify_track_uri e = Some uri) evs"

text \<open>The position of the first event that carries the identifier.\<close>

definition first_pos :: "string \<Rightarrow> SpotifyTrack list \<Rightarrow> nat" where
  "first_pos uri evs = length (takeWhile (\<lambda>e. SpotifyTrack.spotify_track_uri e \<noteq> Some uri) evs)"

text \<open>The tracks of a list whose key is neither in the given set nor the key of an earlier track.\<close>

fun keep_first :: "string set \<Rightarrow> OutputTrack list \<Rightarrow> OutputTrack list" where
  "keep_first seen [] = []"
| "keep_first seen (t # rest) =
     (if dedup_key t \<in> seen then keep_first seen rest
      else t # keep_first (insert (dedup_key t) seen) rest)"

text \<open>
  The record that the fold holds for an identifier after the given events, and the
  record that the parser makes of it, its timestamps sorted. Both are used only for
  identifiers that occur in the events.
\<close>

definition aggregate_of :: "string \<Rightarrow> SpotifyTrack list \<Rightarrow> OutputTrack" where
  "aggregate_of uri evs =
     \<lparr>timestamps = map ts (events_of uri evs),
      track_name = master_metadata_track_name (hd (events_of uri evs)),
      artist_name = master_metadata_album_artist_name (hd (events_of uri evs)),
      album_name = master_metadata_album_album_name (hd (events_of uri evs)),
      OutputTrack.spotify_track_uri = uri\<rparr>"

definition sorted_aggregate_of :: "string \<Rightarrow> SpotifyTrack list \<Rightarrow> OutputTrack" where
  "sorted_aggregate_of uri evs =
     \<lparr>timestamps = sort (map ts (events_of uri evs)),
      track_name = master_metadata_track_name (hd (events_of uri evs)),
      artist_name = master_metadata_album_artist_name (hd (events_of uri evs)),
      album_name = master_metadata_album_album_name (hd (events_of uri evs)),
      OutputTrack.spotify_track_uri = uri\<rparr>"

subsection \<open>A worked example\<close>

text \<open>
  Two history files around one that cannot be parsed. The identifiers A and B carry the
  same artist and track name; B is played twice, A once and first.
\<close>

definition ex_event :: "string \<Rightarrow> string \<Rightarrow> string \<Rightarrow> string \<Rightarrow> json_element" where
  "ex_event uri t nm al =
     Track \<lparr>ts = t, master_metadata_track_name = Some nm,
            master_metadata_album_artist_name = Some ''Artist'',
            master_metadata_album_album_name = Some al,
            spotify_track_uri = Some uri\<rparr>"

definition ex_file_2023 :: dir_entry where
  "ex_file_2023 =
     \<lparr>dir_entry.name = ''Streaming_History_Audio_2023.json'', isFile = True,
      content = JsonArray
        [ex_event ''spotify:track:A'' ''2023-03'' ''Song'' ''Single'',
         ex_event ''spotify:track:B'' ''2023-02'' ''Song'' ''Album'',
         ex_event ''spotify:track:B'' ''2023-01'' ''Song (again)'' ''Album'']\<rparr>"

definition ex_broken :: dir_entry where
  "ex_broken =
     \<lparr>dir_entry.name = ''Streaming_History_Audio_broken.json'', isFile = True, content = Unparseable\<rparr>"

definition ex_file_2024 :: dir_entry where
  "ex_file_2024 =
     \<lparr>dir_entry.name = ''Streaming_History_Audio_2024.json'', isFile = True,
      content = JsonArray
        [ex_event ''spotify:track:C'' ''2024-02'' ''Other'' ''Album'',
         ex_event ''spotify:track:C'' ''2024-01'' ''Other'' ''Album'',
         ex_event ''spotify:track:D'' ''2024-03'' ''Third'' ''Album'']\<rparr>"


definition ex_files :: "dir_entry list" where
  "ex_files = [ex_file_2023, ex_broken, ex_file_2024]"

definition ex_track :: "string \<Rightarrow> string list \<Rightarrow> string \<Rightarrow> string \<Rightarrow> OutputTrack" where
  "ex_track uri tss nm al =
     \<lparr>timestamps = tss, track_name = Some nm, artist_name = Some ''Artist'',
      album_name = Some al, OutputTrack.spotify_track_uri = uri\<rparr>"

definition ex_A :: OutputTrack where
  "ex_A = ex_track ''spotify:track:A'' [''2023-03''] ''Song'' ''Single''"

definition ex_B :: OutputTrack where
  "ex_B = ex_track ''spotify:track:B'' [''2023-01'', ''2023-02''] ''Song'' ''Album''"

definition ex_C :: OutputTrack where
  "ex_C = ex_track ''spotify:track:C'' [''2024-01'', ''2024-02''] ''Other'' ''Album''"

definition ex_D :: OutputTrack where
  "ex_D = ex_track ''spotify:track:D'' [''2024-03''] ''Third'' ''Album''"

definition ex_map :: "(string \<times> OutputTrack) list" where
  "ex_map =
     [(''spotify:track:A'', ex_A),
      (''spotify:track:B'', ex_B\<lparr>timestamps := [''2023-02'', ''2023-01'']\<rparr>),
      (''spotify:track:C'', ex_C\<lparr>timestamps := [''2024-02'', ''2024-01'']\<rparr>),
      (''spotify:track:D'', ex_D)]"

subsection \<open>The matcher's rules in the words of the specification\<close>

text \<open>
  Equality and containment that ignore case and surrounding white space, an exact
  candidate, a usable first candidate, and the configuration of the defaults.
\<close>

definition equals_ci_trimmed :: "string \<Rightarrow> string \<Rightarrow> bool" where
  "equals_ci_trimmed a b = (trim (toLowerCase a) = trim (toLowerCase b))"

definition exact_candidate :: "string \<Rightarrow> string \<Rightarrow> YTMusicSong \<Rightarrow> bool" where
  "exact_candidate targetTitle targetArtist song =
     ((\<exists>t. title song = Some t \<and> equals_ci_trimmed t targetTitle) \<and>
      (\<exists>as a. artists song = Some as \<and> a \<in> set as \<and> equals_ci_trimmed (name a) targetArtist))"

definition has_title_and_artist :: "YTMusicSong \<Rightarrow> bool" where
  "has_title_and_artist song =
     (truthy (title song) \<and> (\<exists>as. artists song = Some as \<and> as \<noteq> []))"

definition ex_song :: "string \<Rightarrow> string \<Rightarrow> string \<Rightarrow> int \<Rightarrow> YTMusicSong" where
  "ex_song i t a secs =
     \<lparr>song_id = Some i, title = Some t, thumbnails = None,
      duration = Some \<lparr>display_text = ''0:00'', seconds = secs\<rparr>, album = None,
      artists = Some [\<lparr>name = a, channel_id = None\<rparr>]\<rparr>"

definition is_substring :: "string \<Rightarrow> string \<Rightarrow> bool" where
  "is_substring k s = (\<exists>pre post. s = pre @ k @ post)"

definition contains_ci :: "string \<Rightarrow> string \<Rightarrow> bool" where
  "contains_ci s k = is_substring (toLowerCase k) (toLowerCase s)"

definition ex_cfg :: Config where
  "ex_cfg =
     \<lparr>minWaitTime = 6, maxWaitTime = 10, outputDir = ''./downloads'', audioFormat = ''opus'',
      verbose = False, useCookieFile = True, maxDuration = 420, blacklistedKeywords = [],
      saveHistoryJson = False, historyJsonPath = None\<rparr>"

subsection \<open>Notions and examples for the orchestrator and the scanner\<close>



definition ex_output_file :: dir_entry where
  "ex_output_file =
     \<lparr>dir_entry.name = generateFilename ''Song'' ''Artist'' ''abc'' ''xyz'' @ ''.'' @ ''opus'',
      isFile = True, content = Unparseable\<rparr>"

section \<open>Properties\<close>

subsection \<open>The Map, the deduplicator and the fold of the parser\<close>

lemma map_get_None_iff: "map_get m k = None \<longleftrightarrow> k \<notin> fst ` set m"
  by (induction m) (auto split: if_splits)

lemma map_has_iff: "map_has m k \<longleftrightarrow> k \<in> fst ` set m"
  by (simp add: map_has_def map_get_None_iff)

lemma map_set_new: "k \<notin> fst ` set m \<Longrightarrow> map_set k v m = m @ [(k, v)]"
  by (induction m) auto

lemma dedup_loop_keep_first:
  "map_values (dedup_loop xs u) = map_values u @ keep_first (fst ` set u) xs"
proof (induction xs arbitrary: u)
  case Nil
  show ?case by simp
next
  case (Cons t xs)
  show ?case
  proof (cases "dedup_key t \<in> fst ` set u")
    case True
    then show ?thesis using Cons.IH [of u] by (simp add: map_has_iff)
  next
    case False
    then show ?thesis
      using Cons.IH [of "u @ [(dedup_key t, t)]"]
      by (simp add: map_has_iff map_set_new map_values_def)
  qed
qed

lemma deduplicateTracks_keep_first: "deduplicateTracks xs = keep_first {} xs"
  using dedup_loop_keep_first [of xs "[]"] by (simp add: deduplicateTracks_def map_values_def)

lemma set_keep_first: "set (keep_first S xs) \<subseteq> set xs"
  by (induction xs arbitrary: S) auto

lemma sorted_wrt_keep_first: "sorted_wrt R xs \<Longrightarrow> sorted_wrt R (keep_first S xs)"
proof (induction xs arbitrary: S)
  case Nil
  show ?case by simp
next
  case (Cons t xs)
  then show ?case using set_keep_first [of "insert (dedup_key t) S" xs] by auto
qed

lemma filter_keep_first:
  "filter (\<lambda>u. dedup_key u = k) (keep_first S xs) =
     (if k \<in> S then [] else take 1 (filter (\<lambda>u. dedup_key u = k) xs))"
proof (induction xs arbitrary: S)
  case Nil
  show ?case by simp
next
  case (Cons t xs)
  show ?case
    using Cons.IH [of S] Cons.IH [of "insert (dedup_key t) S"] by auto
qed

lemma process_elements_fold:
  "process_elements es m = (fold add_track (elements_before_null es) m, completes es)"
  by (induction es m rule: process_elements.induct) simp_all

lemma scan_directory_fold:
  "scan_directory ds (m, n) =
     (fold add_track (processed_events ds) m, n + length (filter processed_file ds))"
proof (induction ds arbitrary: m n)
  case Nil
  show ?case by (simp add: processed_events_def)
next
  case (Cons d ds)
  show ?case
  proof (cases "is_history_file d")
    case False
    then show ?thesis using Cons.IH [of m n] by (simp add: processed_events_def processed_file_def)
  next
    case True
    show ?thesis
    proof (cases "content d")
      case Unparseable
      then show ?thesis using True Cons.IH [of m n]
        by (simp add: processed_events_def processed_file_def)
    next
      case (JsonArray es)
      then show ?thesis using True Cons.IH
        by (simp add: processed_events_def processed_file_def process_elements_fold)
    qed
  qed
qed


lemma map_get_tabulate:
  "map_get (map (\<lambda>k. (k, f k)) ks) u = (if u \<in> set ks then Some (f u) else None)"
  by (induction ks) auto

lemma map_set_tabulate:
  "distinct ks \<Longrightarrow> u \<in> set ks \<Longrightarrow>
   map_set u v (map (\<lambda>k. (k, f k)) ks) = map (\<lambda>k. (k, if k = u then v else f k)) ks"
  by (induction ks) auto

lemma events_of_snoc:
  "events_of k (evs @ [e]) =
     (if SpotifyTrack.spotify_track_uri e = Some k then events_of k evs @ [e] else events_of k evs)"
  by (simp add: events_of_def)

lemma length_takeWhile_stop:
  "x \<in> set xs \<Longrightarrow> \<not> P x \<Longrightarrow> length (takeWhile P xs) < length xs"
  by (induction xs) auto

lemma first_pos_seen:
  "events_of k evs \<noteq> [] \<Longrightarrow> first_pos k (evs @ [e]) = first_pos k evs \<and> first_pos k evs < length evs"
proof -
  assume "events_of k evs \<noteq> []"
  then obtain x where x: "x \<in> set evs" "SpotifyTrack.spotify_track_uri x = Some k"
    by (auto simp: events_of_def filter_empty_conv)
  then have "takeWhile (\<lambda>e. SpotifyTrack.spotify_track_uri e \<noteq> Some k) (evs @ [e]) =
             takeWhile (\<lambda>e. SpotifyTrack.spotify_track_uri e \<noteq> Some k) evs"
    by (intro takeWhile_append1 [of x]) auto
  moreover have "length (takeWhile (\<lambda>e. SpotifyTrack.spotify_track_uri e \<noteq> Some k) evs) < length evs"
    using x by (intro length_takeWhile_stop [of x]) auto
  ultimately show ?thesis by (simp add: first_pos_def)
qed

lemma first_pos_new:
  "events_of k evs = [] \<Longrightarrow> SpotifyTrack.spotify_track_uri e = Some k \<Longrightarrow>
   first_pos k (evs @ [e]) = length evs"
proof -
  assume a: "events_of k evs = []" and b: "SpotifyTrack.spotify_track_uri e = Some k"
  from a have "\<forall>x\<in>set evs. SpotifyTrack.spotify_track_uri x \<noteq> Some k"
    by (auto simp: events_of_def filter_empty_conv)
  then have "takeWhile (\<lambda>e. SpotifyTrack.spotify_track_uri e \<noteq> Some k) (evs @ [e]) = evs"
    using b by simp
  then show ?thesis by (simp add: first_pos_def)
qed


lemma add_track_falsy:
  "\<not> truthy (SpotifyTrack.spotify_track_uri e) \<Longrightarrow> add_track e m = m"
  by (simp add: add_track_def)

lemma add_track_truthy:
  "SpotifyTrack.spotify_track_uri e = Some u \<Longrightarrow> u \<noteq> [] \<Longrightarrow>
   add_track e m =
     (case map_get m u of
        Some existing \<Rightarrow> map_set u (existing\<lparr>timestamps := timestamps existing @ [ts e]\<rparr>) m
      | None \<Rightarrow>
          map_set u
            \<lparr>timestamps = [ts e],
             track_name = master_metadata_track_name e,
             artist_name = master_metadata_album_artist_name e,
             album_name = master_metadata_album_album_name e,
             OutputTrack.spotify_track_uri = u\<rparr> m)"
  by (simp add: add_track_def truthy_def)

lemma aggregate_of_other:
  "SpotifyTrack.spotify_track_uri e \<noteq> Some k \<Longrightarrow> aggregate_of k (evs @ [e]) = aggregate_of k evs"
  by (simp add: aggregate_of_def events_of_snoc)

lemma aggregate_of_again:
  "SpotifyTrack.spotify_track_uri e = Some k \<Longrightarrow> events_of k evs \<noteq> [] \<Longrightarrow>
   aggregate_of k (evs @ [e]) = (aggregate_of k evs)\<lparr>timestamps := timestamps (aggregate_of k evs) @ [ts e]\<rparr>"
  by (simp add: aggregate_of_def events_of_snoc)

lemma aggregate_of_first:
  "SpotifyTrack.spotify_track_uri e = Some k \<Longrightarrow> events_of k evs = [] \<Longrightarrow>
   aggregate_of k (evs @ [e]) =
     \<lparr>timestamps = [ts e],
      track_name = master_metadata_track_name e,
      artist_name = master_metadata_album_artist_name e,
      album_name = master_metadata_album_album_name e,
      OutputTrack.spotify_track_uri = k\<rparr>"
  by (simp add: aggregate_of_def events_of_snoc)

lemma fold_add_track_closed_form:
  "\<exists>ks. fold add_track evs [] = map (\<lambda>k. (k, aggregate_of k evs)) ks \<and> distinct ks \<and>
        set ks = {u. u \<noteq> [] \<and> events_of u evs \<noteq> []} \<and>
        sorted_wrt (\<lambda>a b. first_pos a evs < first_pos b evs) ks"
proof (induction evs rule: rev_induct)
  case Nil
  show ?case by (intro exI [of _ "[]"]) (simp add: events_of_def)
next
  case (snoc e evs)
  then obtain ks where m: "fold add_track evs [] = map (\<lambda>k. (k, aggregate_of k evs)) ks"
    and d: "distinct ks"
    and s: "set ks = {u. u \<noteq> [] \<and> events_of u evs \<noteq> []}"
    and o: "sorted_wrt (\<lambda>a b. first_pos a evs < first_pos b evs) ks"
    by blast
  have seen: "first_pos k (evs @ [e]) = first_pos k evs \<and> first_pos k evs < length evs"
    if "k \<in> set ks" for k
    using that s first_pos_seen [of k evs e] by simp
  have o': "sorted_wrt (\<lambda>a b. first_pos a (evs @ [e]) < first_pos b (evs @ [e])) ks"
    using o by (rule sorted_wrt_mono_rel [rotated]) (simp add: seen)
  have step: "fold add_track (evs @ [e]) [] = add_track e (map (\<lambda>k. (k, aggregate_of k evs)) ks)"
    by (simp add: m)
  show ?case
  proof (cases "truthy (SpotifyTrack.spotify_track_uri e)")
    case False
    have other: "SpotifyTrack.spotify_track_uri e \<noteq> Some k" if "k \<noteq> []" for k
      using False that by (auto simp: truthy_def)
    have same: "events_of k (evs @ [e]) = events_of k evs" if "k \<noteq> []" for k
      using other [OF that] by (simp add: events_of_snoc)
    have "aggregate_of k (evs @ [e]) = aggregate_of k evs" if "k \<in> set ks" for k
      using that s other [of k] by (simp add: aggregate_of_other)
    then have "map (\<lambda>k. (k, aggregate_of k evs)) ks = map (\<lambda>k. (k, aggregate_of k (evs @ [e]))) ks"
      by simp
    moreover have "(k \<noteq> [] \<and> events_of k (evs @ [e]) \<noteq> []) = (k \<noteq> [] \<and> events_of k evs \<noteq> [])" for k
      using same [of k] by (cases "k = []") simp_all
    then have "set ks = {u. u \<noteq> [] \<and> events_of u (evs @ [e]) \<noteq> []}"
      using s by simp
    ultimately have "fold add_track (evs @ [e]) [] = map (\<lambda>k. (k, aggregate_of k (evs @ [e]))) ks"
      and "set ks = {u. u \<noteq> [] \<and> events_of u (evs @ [e]) \<noteq> []}"
      using step add_track_falsy [OF False] by simp_all
    then show ?thesis
      using d o' by (intro exI [of _ ks]) simp
  next
    case True
    then obtain u where u: "SpotifyTrack.spotify_track_uri e = Some u" "u \<noteq> []"
      by (auto simp: truthy_def split: option.splits)
    have keys: "{k. k \<noteq> [] \<and> events_of k (evs @ [e]) \<noteq> []} = insert u (set ks)"
      using s u by (auto simp: events_of_snoc)
    show ?thesis
    proof (cases "u \<in> set ks")
      case True
      then have ne: "events_of u evs \<noteq> []" using s by simp
      let ?v = "(aggregate_of u evs)\<lparr>timestamps := timestamps (aggregate_of u evs) @ [ts e]\<rparr>"
      have v: "?v = aggregate_of u (evs @ [e])"
        using ne u by (simp add: aggregate_of_again)
      have "add_track e (map (\<lambda>k. (k, aggregate_of k evs)) ks) =
            map (\<lambda>k. (k, if k = u then ?v else aggregate_of k evs)) ks"
        using True d add_track_truthy [OF u]
        by (simp add: map_get_tabulate map_set_tabulate)
      also have "\<dots> = map (\<lambda>k. (k, aggregate_of k (evs @ [e]))) ks"
      proof (rule map_cong [OF refl])
        fix k assume "k \<in> set ks"
        show "(k, if k = u then ?v else aggregate_of k evs) = (k, aggregate_of k (evs @ [e]))"
          using v u(1) aggregate_of_other [of e k evs] by (cases "k = u") simp_all
      qed
      finally have "fold add_track (evs @ [e]) [] = map (\<lambda>k. (k, aggregate_of k (evs @ [e]))) ks"
        using step by simp
      moreover have "set ks = {k. k \<noteq> [] \<and> events_of k (evs @ [e]) \<noteq> []}"
        using keys True by auto
      ultimately show ?thesis using d o' by (intro exI [of _ ks]) simp
    next
      case False
      then have em: "events_of u evs = []" using s u by auto
      have new: "aggregate_of u (evs @ [e]) =
          \<lparr>timestamps = [ts e],
           track_name = master_metadata_track_name e,
           artist_name = master_metadata_album_artist_name e,
           album_name = master_metadata_album_album_name e,
           OutputTrack.spotify_track_uri = u\<rparr>"
        using em u by (simp add: aggregate_of_first)
      have "aggregate_of k (evs @ [e]) = aggregate_of k evs" if "k \<in> set ks" for k
        using that False u(1) aggregate_of_other [of e k evs] by auto
      then have old: "map (\<lambda>k. (k, aggregate_of k evs)) ks = map (\<lambda>k. (k, aggregate_of k (evs @ [e]))) ks"
        by simp
      have "add_track e (map (\<lambda>k. (k, aggregate_of k evs)) ks) =
            map (\<lambda>k. (k, aggregate_of k evs)) ks @ [(u, aggregate_of u (evs @ [e]))]"
        using False add_track_truthy [OF u]
        by (simp add: map_get_tabulate map_set_new new image_image)
      then have "fold add_track (evs @ [e]) [] = map (\<lambda>k. (k, aggregate_of k (evs @ [e]))) (ks @ [u])"
        using step old by simp
      moreover have "distinct (ks @ [u])" using d False by simp
      moreover have "set (ks @ [u]) = {k. k \<noteq> [] \<and> events_of k (evs @ [e]) \<noteq> []}"
        using keys by auto
      moreover have "sorted_wrt (\<lambda>a b. first_pos a (evs @ [e]) < first_pos b (evs @ [e])) (ks @ [u])"
        using o' seen first_pos_new [OF em u(1)] by (simp add: sorted_wrt_append)
      ultimately show ?thesis by blast
    qed
  qed
qed

lemma aggregated_tracks_tabulate:
  "aggregated_tracks (map (\<lambda>k. (k, aggregate_of k evs)) ks) = map (\<lambda>k. sorted_aggregate_of k evs) ks"
  by (simp add: aggregated_tracks_def map_values_def aggregate_of_def sorted_aggregate_of_def comp_def)

lemma scan_shape:
  assumes "scan_directory ds ([], 0) = (trackMap, n)"
  shows "\<exists>ks. aggregated_tracks trackMap = map (\<lambda>k. sorted_aggregate_of k (processed_events ds)) ks \<and>
          distinct ks \<and>
          set ks = {u. u \<noteq> [] \<and> events_of u (processed_events ds) \<noteq> []} \<and>
          sorted_wrt (\<lambda>a b. first_pos a (processed_events ds) < first_pos b (processed_events ds)) ks"
proof -
  have tm: "trackMap = fold add_track (processed_events ds) []"
    using assms by (simp add: scan_directory_fold)
  obtain ks where ks: "fold add_track (processed_events ds) [] =
        map (\<lambda>k. (k, aggregate_of k (processed_events ds))) ks"
      "distinct ks" "set ks = {u. u \<noteq> [] \<and> events_of u (processed_events ds) \<noteq> []}"
      "sorted_wrt (\<lambda>a b. first_pos a (processed_events ds) < first_pos b (processed_events ds)) ks"
    using fold_add_track_closed_form [of "processed_events ds"] by blast
  have "aggregated_tracks trackMap = map (\<lambda>k. sorted_aggregate_of k (processed_events ds)) ks"
    by (simp only: tm ks(1) aggregated_tracks_tabulate)
  then show ?thesis using ks(2-4) by blast
qed

lemma parse_result:
  assumes "parseSpotifyStreamingHistory dir = Inr out"
  shows "\<exists>ds trackMap n. dir = Listing ds \<and> scan_directory ds ([], 0) = (trackMap, n) \<and>
           out = sort_by_play_count (keep_first {} (aggregated_tracks trackMap))"
  using assms
  by (auto simp: parseSpotifyStreamingHistory_def deduplicateTracks_keep_first
           split: directory.splits prod.splits if_splits)

lemma set_sort_by_play_count: "set (sort_by_play_count xs) = set xs"
  by (simp add: sort_by_play_count_def)

lemma aggregated_track_events:
  assumes "scan_directory ds ([], 0) = (trackMap, n)" and "t \<in> set (aggregated_tracks trackMap)"
  shows "\<exists>e rest. events_of (OutputTrack.spotify_track_uri t) (processed_events ds) = e # rest \<and>
           timestamps t = sort (map ts (e # rest)) \<and>
           track_name t = master_metadata_track_name e \<and>
           artist_name t = master_metadata_album_artist_name e \<and>
           album_name t = master_metadata_album_album_name e"
proof -
  obtain ks where ks: "aggregated_tracks trackMap = map (\<lambda>k. sorted_aggregate_of k (processed_events ds)) ks"
      "set ks = {u. u \<noteq> [] \<and> events_of u (processed_events ds) \<noteq> []}"
    using scan_shape [OF assms(1)] by blast
  then obtain k where k: "k \<in> set ks" "t = sorted_aggregate_of k (processed_events ds)"
    using assms(2) by auto
  then obtain e rest where "events_of k (processed_events ds) = e # rest"
    using ks(2) by (cases "events_of k (processed_events ds)") auto
  then show ?thesis using k(2) by (simp add: sorted_aggregate_of_def)
qed

lemma aggregated_identifiers:
  assumes "scan_directory ds ([], 0) = (trackMap, n)"
  shows "distinct (map OutputTrack.spotify_track_uri (aggregated_tracks trackMap)) \<and>
         set (map OutputTrack.spotify_track_uri (aggregated_tracks trackMap)) =
           {u. u \<noteq> [] \<and> events_of u (processed_events ds) \<noteq> []}"
proof -
  obtain ks where ks: "aggregated_tracks trackMap = map (\<lambda>k. sorted_aggregate_of k (processed_events ds)) ks"
      "distinct ks" "set ks = {u. u \<noteq> [] \<and> events_of u (processed_events ds) \<noteq> []}"
    using scan_shape [OF assms] by blast
  have "map OutputTrack.spotify_track_uri (aggregated_tracks trackMap) = ks"
    by (simp add: ks(1) sorted_aggregate_of_def comp_def)
  then show ?thesis using ks(2,3) by simp
qed

lemma output_subset_aggregated:
  assumes "parseSpotifyStreamingHistory (Listing ds) = Inr out"
    and "scan_directory ds ([], 0) = (trackMap, n)"
  shows "set out \<subseteq> set (aggregated_tracks trackMap)"
  using parse_result [OF assms(1)] assms(2) set_keep_first [of "{}" "aggregated_tracks trackMap"]
  by (auto simp: set_sort_by_play_count)

lemma sorted_wrt_filter_nth:
  "sorted_wrt R (filter P xs) \<Longrightarrow> i < j \<Longrightarrow> j < length xs \<Longrightarrow> P (xs ! i) \<Longrightarrow> P (xs ! j) \<Longrightarrow>
   R (xs ! i) (xs ! j)"
proof (induction xs arbitrary: i j)
  case Nil
  then show ?case by simp
next
  case (Cons x xs)
  obtain j' where j: "j = Suc j'" using Cons.prems(2) by (cases j) auto
  have tl: "sorted_wrt R (filter P xs)" using Cons.prems(1) by (cases "P x") auto
  show ?case
  proof (cases i)
    case 0
    then have "P x" using Cons.prems(4) by simp
    moreover have "xs ! j' \<in> set (filter P xs)" using Cons.prems(3,5) j by simp
    ultimately show ?thesis using Cons.prems(1) 0 j by auto
  next
    case (Suc i')
    then show ?thesis using Cons.IH [OF tl, of i' j'] Cons.prems j by simp
  qed
qed

lemma find_filter: "find P xs = (case filter P xs of [] \<Rightarrow> None | x # rest \<Rightarrow> Some x)"
  by (induction xs) auto

lemma aggregated_order:
  assumes "scan_directory ds ([], 0) = (trackMap, n)"
  shows "sorted_wrt (\<lambda>a b. first_pos (OutputTrack.spotify_track_uri a) (processed_events ds)
                         < first_pos (OutputTrack.spotify_track_uri b) (processed_events ds))
           (aggregated_tracks trackMap)"
proof -
  obtain ks where ks: "aggregated_tracks trackMap = map (\<lambda>k. sorted_aggregate_of k (processed_events ds)) ks"
      "sorted_wrt (\<lambda>a b. first_pos a (processed_events ds) < first_pos b (processed_events ds)) ks"
    using scan_shape [OF assms] by blast
  show ?thesis
    using ks(2) by (simp add: ks(1) sorted_wrt_map sorted_aggregate_of_def)
qed

lemma processed_events_append:
  "processed_events (ds1 @ ds2) = processed_events ds1 @ processed_events ds2"
  by (simp add: processed_events_def)

lemma scan_directory_skip:
  assumes "is_history_file d" and "content d = Unparseable"
  shows "scan_directory (ds1 @ d # ds2) st = scan_directory (ds1 @ ds2) st"
proof -
  obtain m n where st: "st = (m, n)" by (cases st)
  have "processed_events (ds1 @ d # ds2) = processed_events (ds1 @ ds2)"
    using assms by (simp add: processed_events_def)
  moreover have "filter processed_file (ds1 @ d # ds2) = filter processed_file (ds1 @ ds2)"
    using assms by (simp add: processed_file_def)
  ultimately show ?thesis by (simp add: st scan_directory_fold)
qed

subsection \<open>The worked example, evaluated\<close>

lemmas ex_defs = ex_files_def ex_file_2023_def ex_broken_def ex_file_2024_def ex_event_def ex_track_def ex_A_def ex_B_def ex_C_def ex_D_def ex_map_def

lemma ex_scan: "scan_directory ex_files ([], 0) = (ex_map, 2)"
  by (simp add: ex_defs add_track_def truthy_def Let_def is_history_file_def startsWith_def endsWith_def)

lemma ex_aggregated: "aggregated_tracks ex_map = [ex_A, ex_B, ex_C, ex_D]"
  by (simp add: aggregated_tracks_def map_values_def ex_defs)

lemma ex_parse: "parseSpotifyStreamingHistory (Listing ex_files) = Inr [ex_C, ex_A, ex_D]"
  by (simp add: parseSpotifyStreamingHistory_def ex_scan ex_aggregated deduplicateTracks_keep_first
        sort_by_play_count_def ex_track_def ex_A_def ex_B_def ex_C_def ex_D_def dedup_key_def render_def)


subsection \<open>History parser\<close>









text \<open>
  C7. The parser's output is in descending order of the number of timestamps, and two
  tracks with the same number are in the order in which their identifiers were first
  encountered among the processed events.
\<close>

theorem output_order:
  assumes "parseSpotifyStreamingHistory (Listing ds) = Inr out" and "i < j" and "j < length out"
  shows "length (timestamps (out ! j)) \<le> length (timestamps (out ! i)) \<and>
         (length (timestamps (out ! i)) = length (timestamps (out ! j)) \<longrightarrow>
          first_pos (OutputTrack.spotify_track_uri (out ! i)) (processed_events ds)
            < first_pos (OutputTrack.spotify_track_uri (out ! j)) (processed_events ds))"
proof -
  let ?f = "\<lambda>t. - int (length (timestamps t))"
  let ?R = "\<lambda>a b. first_pos (OutputTrack.spotify_track_uri a) (processed_events ds)
                   < first_pos (OutputTrack.spotify_track_uri b) (processed_events ds)"
  obtain trackMap n where sc: "scan_directory ds ([], 0) = (trackMap, n)"
    and out: "out = sort_by_play_count (keep_first {} (aggregated_tracks trackMap))"
    using parse_result [OF assms(1)] by auto
  let ?xs = "keep_first {} (aggregated_tracks trackMap)"
  have o: "out = sort_key ?f ?xs" using out by (simp add: sort_by_play_count_def)
  have "sorted (map ?f out)" unfolding o by (rule sorted_sort_key)
  then have "?f (out ! i) \<le> ?f (out ! j)"
    using assms(2,3) sorted_nth_mono [of "map ?f out" i j] by simp
  then have le: "length (timestamps (out ! j)) \<le> length (timestamps (out ! i))" by simp
  have xs: "sorted_wrt ?R ?xs"
    using aggregated_order [OF sc] by (rule sorted_wrt_keep_first)
  have tie: "?R (out ! i) (out ! j)" if eq: "length (timestamps (out ! i)) = length (timestamps (out ! j))"
  proof -
    let ?P = "\<lambda>y. ?f y = ?f (out ! i)"
    have "filter ?P out = filter ?P ?xs" unfolding o by (rule sort_key_stable)
    then have srt: "sorted_wrt ?R (filter ?P out)" using xs by (simp add: sorted_wrt_filter)
    have "?P (out ! i)" and "?P (out ! j)" using eq by simp_all
    then show ?thesis
      using sorted_wrt_filter_nth [where R = ?R and P = ?P, OF srt assms(2,3)] by blast
  qed
  show ?thesis using le tie by blast
qed

theorem output_order_witness:
  "parseSpotifyStreamingHistory (Listing ex_files) = Inr [ex_C, ex_A, ex_D] \<and>
   (1::nat) < 2 \<and> 2 < length [ex_C, ex_A, ex_D] \<and>
   length (timestamps ex_D) \<le> length (timestamps ex_A) \<and>
   length (timestamps ex_A) = length (timestamps ex_D) \<and>
   first_pos ''spotify:track:A'' (processed_events ex_files)
     < first_pos ''spotify:track:D'' (processed_events ex_files)"
  using output_order [OF ex_parse, of 1 2]
  by (simp add: ex_parse ex_A_def ex_D_def ex_track_def)

text \<open>
  C2, as amended. The deduplicator runs on the aggregated tracks in the order of the
  Map, before the sort by play count. For every aggregated track, the output holds
  exactly one track with its key: the first aggregated track with that key, whose
  identifier was encountered no later than that of any other track with the key.
\<close>

theorem dedup_survivor:
  assumes "parseSpotifyStreamingHistory (Listing ds) = Inr out"
    and "scan_directory ds ([], 0) = (trackMap, n)"
    and "t \<in> set (aggregated_tracks trackMap)"
  shows "\<exists>s. find (\<lambda>u. dedup_key u = dedup_key t) (aggregated_tracks trackMap) = Some s \<and>
             filter (\<lambda>u. dedup_key u = dedup_key t) out = [s] \<and>
             first_pos (OutputTrack.spotify_track_uri s) (processed_events ds)
               \<le> first_pos (OutputTrack.spotify_track_uri t) (processed_events ds)"
proof -
  let ?P = "\<lambda>u. dedup_key u = dedup_key t"
  let ?agg = "aggregated_tracks trackMap"
  let ?R = "\<lambda>a b. first_pos (OutputTrack.spotify_track_uri a) (processed_events ds)
                   < first_pos (OutputTrack.spotify_track_uri b) (processed_events ds)"
  have out: "out = sort_by_play_count (keep_first {} ?agg)"
    using parse_result [OF assms(1)] assms(2) by auto
  have "t \<in> set (filter ?P ?agg)" using assms(3) by simp
  then obtain s rest where sr: "filter ?P ?agg = s # rest" and t: "t = s \<or> t \<in> set rest"
    by (cases "filter ?P ?agg") auto
  have "find ?P ?agg = Some s" by (simp add: find_filter sr)
  moreover have "filter ?P out = [s]"
    by (simp add: out sort_by_play_count_def filter_sort filter_keep_first sr)
  moreover have "sorted_wrt ?R (s # rest)"
    using aggregated_order [OF assms(2)] sorted_wrt_filter [of ?R ?agg ?P] by (simp add: sr)
  then have "first_pos (OutputTrack.spotify_track_uri s) (processed_events ds)
               \<le> first_pos (OutputTrack.spotify_track_uri t) (processed_events ds)"
    using t by auto
  ultimately show ?thesis by blast
qed

theorem dedup_survivor_witness:
  "parseSpotifyStreamingHistory (Listing ex_files) = Inr [ex_C, ex_A, ex_D] \<and>
   scan_directory ex_files ([], 0) = (ex_map, 2) \<and>
   ex_B \<in> set (aggregated_tracks ex_map) \<and>
   filter (\<lambda>u. dedup_key u = dedup_key ex_B) [ex_C, ex_A, ex_D] = [ex_A] \<and>
   first_pos (OutputTrack.spotify_track_uri ex_A) (processed_events ex_files)
     \<le> first_pos (OutputTrack.spotify_track_uri ex_B) (processed_events ex_files)"
proof -
  have b: "ex_B \<in> set (aggregated_tracks ex_map)" by (simp add: ex_aggregated)
  have "find (\<lambda>u. dedup_key u = dedup_key ex_B) (aggregated_tracks ex_map) = Some ex_A"
    by (simp add: ex_aggregated ex_A_def ex_B_def ex_track_def dedup_key_def)
  then show ?thesis
    using dedup_survivor [OF ex_parse ex_scan b] ex_parse ex_scan b by auto
qed

text \<open>
  C2 as stated fails: A and B share artist and track name, B has two plays and A one,
  and the output keeps A.
\<close>

theorem dedup_survivor_counterexample:
  "parseSpotifyStreamingHistory (Listing ex_files) = Inr [ex_C, ex_A, ex_D] \<and>
   aggregated_tracks (fst (scan_directory ex_files ([], 0))) = [ex_A, ex_B, ex_C, ex_D] \<and>
   artist_name ex_B = artist_name ex_A \<and> track_name ex_B = track_name ex_A \<and>
   length (timestamps ex_A) < length (timestamps ex_B)"
  by (simp add: ex_parse ex_scan ex_aggregated ex_A_def ex_B_def ex_track_def)

text \<open>
  C9, as amended. Every track in the output of the raw-history parser has at least one
  timestamp. The loader of a serialised sequence returns the tracks of the file as they
  are.
\<close>

theorem parser_timestamps_nonempty:
  assumes "parseSpotifyStreamingHistory dir = Inr out" and "t \<in> set out"
  shows "timestamps t \<noteq> [] \<and> parseSpotifyHistoryFile (JsonTracks tracks) = Inr tracks"
proof -
  obtain ds trackMap n where d: "dir = Listing ds" "scan_directory ds ([], 0) = (trackMap, n)"
    using parse_result [OF assms(1)] by blast
  then have "t \<in> set (aggregated_tracks trackMap)"
    using assms output_subset_aggregated by blast
  then obtain e :: SpotifyTrack and rest where "timestamps t = sort (map ts (e # rest))"
    using aggregated_track_events [OF d(2)] by blast
  then have "length (timestamps t) = Suc (length rest)"
    by (metis length_Cons length_map length_sort)
  then have "timestamps t \<noteq> []" by auto
  then show ?thesis by (simp add: parseSpotifyHistoryFile_def)
qed

theorem parser_timestamps_nonempty_witness:
  "parseSpotifyStreamingHistory (Listing ex_files) = Inr [ex_C, ex_A, ex_D] \<and>
   ex_A \<in> set [ex_C, ex_A, ex_D] \<and> timestamps ex_A \<noteq> []"
proof -
  have a: "ex_A \<in> set [ex_C, ex_A, ex_D]" by simp
  show ?thesis using parser_timestamps_nonempty [OF ex_parse a] ex_parse a by blast
qed

text \<open>
  C9 as stated fails for the loader of a serialised sequence, which returns the array
  of the file as it is: a track with no timestamp comes back unchanged.
\<close>

theorem loader_empty_timestamps_counterexample:
  "parseSpotifyHistoryFile (JsonTracks [ex_A\<lparr>timestamps := []\<rparr>]) = Inr [ex_A\<lparr>timestamps := []\<rparr>] \<and>
   timestamps (ex_A\<lparr>timestamps := []\<rparr>) = []"
  by (simp add: parseSpotifyHistoryFile_def)

text \<open>
  C6, as amended. The parser fails with the no-history-files error exactly when the
  directory can be listed and no history file of it is processed to its end: there is
  none, or every one fails. A history file that cannot be read or parsed is skipped:
  the result is the one of the listing without it.
\<close>

theorem no_history_files_error:
  "(parseSpotifyStreamingHistory dir = Inl NoHistoryFilesFound \<longleftrightarrow>
      (\<exists>ds. dir = Listing ds \<and> \<not> list_ex processed_file ds)) \<and>
   (is_history_file d \<and> content d = Unparseable \<longrightarrow>
      parseSpotifyStreamingHistory (Listing (ds1 @ d # ds2)) =
      parseSpotifyStreamingHistory (Listing (ds1 @ ds2)))"
proof (intro conjI impI)
  show "parseSpotifyStreamingHistory dir = Inl NoHistoryFilesFound \<longleftrightarrow>
      (\<exists>ds. dir = Listing ds \<and> \<not> list_ex processed_file ds)"
  proof (cases dir)
    case Unreadable
    then show ?thesis by (simp add: parseSpotifyStreamingHistory_def)
  next
    case (Listing ds)
    have "list_ex processed_file ds \<longleftrightarrow> filter processed_file ds \<noteq> []"
      by (simp add: list_ex_iff filter_empty_conv)
    then show ?thesis
      by (simp add: Listing parseSpotifyStreamingHistory_def scan_directory_fold)
  qed
next
  assume "is_history_file d \<and> content d = Unparseable"
  then show "parseSpotifyStreamingHistory (Listing (ds1 @ d # ds2)) =
      parseSpotifyStreamingHistory (Listing (ds1 @ ds2))"
    by (simp add: parseSpotifyStreamingHistory_def scan_directory_skip)
qed

theorem no_history_files_error_witness:
  "is_history_file ex_broken \<and> content ex_broken = Unparseable \<and>
   parseSpotifyStreamingHistory (Listing ([ex_file_2023] @ ex_broken # [ex_file_2024])) =
   parseSpotifyStreamingHistory (Listing ([ex_file_2023] @ [ex_file_2024])) \<and>
   parseSpotifyStreamingHistory (Listing ([ex_file_2023] @ ex_broken # [ex_file_2024])) =
   Inr [ex_C, ex_A, ex_D] \<and>
   list_ex processed_file [ex_file_2023, ex_broken, ex_file_2024]"
proof -
  have b: "is_history_file ex_broken \<and> content ex_broken = Unparseable"
    by (simp add: ex_broken_def is_history_file_def startsWith_def endsWith_def)
  have p: "parseSpotifyStreamingHistory (Listing [ex_file_2023, ex_broken, ex_file_2024]) =
      Inr [ex_C, ex_A, ex_D]"
    using ex_parse by (simp add: ex_files_def)
  then have "list_ex processed_file [ex_file_2023, ex_broken, ex_file_2024]"
    using no_history_files_error [of "Listing [ex_file_2023, ex_broken, ex_file_2024]"] by auto
  moreover have "parseSpotifyStreamingHistory (Listing ([ex_file_2023] @ ex_broken # [ex_file_2024])) =
      parseSpotifyStreamingHistory (Listing ([ex_file_2023] @ [ex_file_2024]))"
    using no_history_files_error [of _ ex_broken "[ex_file_2023]" "[ex_file_2024]"] b by blast
  ultimately show ?thesis using b p by simp
qed

text \<open>
  C6 as stated fails: a directory whose only history file cannot be parsed holds a
  matching file, and the parser fails with the no-history-files error.
\<close>

theorem no_history_files_counterexample:
  "is_history_file ex_broken \<and>
   parseSpotifyStreamingHistory (Listing [ex_broken]) = Inl NoHistoryFilesFound"
  by (simp add: ex_broken_def is_history_file_def startsWith_def endsWith_def
        parseSpotifyStreamingHistory_def)

subsection \<open>Deduplicator\<close>

text \<open>
  C10. The deduplicator's key is the one string made of the artist name, a bar and the
  track name, a null field written \<open>null\<close>. So tracks with different (artist, track)
  pairs can share a key, and then only the first survives: artist \<open>a|b\<close> with title
  \<open>c\<close> before artist \<open>a\<close> with title \<open>b|c\<close>, and any two tracks that both have a null
  artist and a null track name, whatever their other fields.
\<close>

theorem dedup_key_collision:
  "dedup_key t =
     (case artist_name t of None \<Rightarrow> ''null'' | Some a \<Rightarrow> a) @ ''|'' @
     (case track_name t of None \<Rightarrow> ''null'' | Some n \<Rightarrow> n) \<and>
   deduplicateTracks
     [t1\<lparr>artist_name := Some ''a|b'', track_name := Some ''c''\<rparr>,
      t2\<lparr>artist_name := Some ''a'', track_name := Some ''b|c''\<rparr>]
     = [t1\<lparr>artist_name := Some ''a|b'', track_name := Some ''c''\<rparr>] \<and>
   deduplicateTracks
     [t1\<lparr>artist_name := None, track_name := None\<rparr>,
      t2\<lparr>artist_name := None, track_name := None\<rparr>]
     = [t1\<lparr>artist_name := None, track_name := None\<rparr>]"
  by (simp add: dedup_key_def render_def deduplicateTracks_def map_values_def map_has_def)

subsection \<open>Catalog matcher\<close>

lemma exact_match_iff:
  "exact_match (trim (toLowerCase tt)) (trim (toLowerCase ta)) song = exact_candidate tt ta song"
  by (auto simp: exact_match_def exact_candidate_def equals_ci_trimmed_def list_ex_iff
           split: option.splits)

lemma lower_ex: "toLowerCase ''Song'' = ''song''" "toLowerCase ''Artist'' = ''artist''"
     "toLowerCase ''Other'' = ''other''" "toLowerCase '' SONG '' = '' song ''"
  by code_simp+

lemma trim_ex: "trim ''song'' = ''song''" "trim ''artist'' = ''artist''" "trim ''other'' = ''other''"
   "trim '' song '' = ''song''"
  by (simp_all add: trim_def is_space_def)

lemma startsWith_iff: "startsWith s k \<longleftrightarrow> (\<exists>post. s = k @ post)"
proof
  assume "startsWith s k"
  then have "s = k @ drop (length k) s"
    by (metis append_take_drop_id startsWith_def)
  then show "\<exists>post. s = k @ post" ..
next
  assume "\<exists>post. s = k @ post"
  then show "startsWith s k" by (auto simp: startsWith_def)
qed

lemma str_includes_iff: "str_includes s k \<longleftrightarrow> is_substring k s"
proof (induction s)
  case Nil
  show ?case by (simp add: is_substring_def)
next
  case (Cons c s)
  have "is_substring k (c # s) \<longleftrightarrow> (\<exists>post. c # s = k @ post) \<or> is_substring k s"
  proof
    assume "is_substring k (c # s)"
    then obtain pre post where p: "c # s = pre @ k @ post" by (auto simp: is_substring_def)
    show "(\<exists>post. c # s = k @ post) \<or> is_substring k s"
    proof (cases pre)
      case Nil
      then show ?thesis using p by auto
    next
      case (Cons a pre')
      then have "s = pre' @ k @ post" using p by simp
      then show ?thesis by (auto simp: is_substring_def)
    qed
  next
    assume "(\<exists>post. c # s = k @ post) \<or> is_substring k s"
    then show "is_substring k (c # s)"
    proof
      assume "\<exists>post. c # s = k @ post"
      then obtain post where "c # s = [] @ k @ post" by auto
      then show ?thesis unfolding is_substring_def by blast
    next
      assume "is_substring k s"
      then obtain pre post where "s = pre @ k @ post" by (auto simp: is_substring_def)
      then have "c # s = (c # pre) @ k @ post" by simp
      then show ?thesis unfolding is_substring_def by blast
    qed
  qed
  then show ?case using Cons.IH by (simp add: startsWith_iff)
qed

lemma lower_char_idem: "lower_char (lower_char c) = lower_char c"
proof -
  let ?n = "of_char c :: nat"
  show ?thesis
  proof (cases "(65 \<le> ?n \<and> ?n \<le> 90) \<or> (192 \<le> ?n \<and> ?n \<le> 222 \<and> ?n \<noteq> 215)")
    case False
    have "lower_char c = c"
      unfolding lower_char_def Let_def using False by (rule if_not_P)
    then show ?thesis by simp
  next
    case True
    have up: "lower_char c = char_of (?n + 32)"
      unfolding lower_char_def Let_def using True by (rule if_P)
    have n: "(of_char (char_of (?n + 32)) :: nat) = ?n + 32" using True by auto
    have "\<not> ((65 \<le> ?n + 32 \<and> ?n + 32 \<le> 90) \<or> (192 \<le> ?n + 32 \<and> ?n + 32 \<le> 222 \<and> ?n + 32 \<noteq> 215))"
      using True by arith
    then have "lower_char (char_of (?n + 32)) = char_of (?n + 32)"
      unfolding lower_char_def Let_def n by (rule if_not_P)
    then show ?thesis by (simp add: up)
  qed
qed

lemma toLowerCase_idem: "toLowerCase (toLowerCase s) = toLowerCase s"
  by (simp add: toLowerCase_def lower_char_idem)

lemma parse_blacklist_lower: "k \<in> set (parse_blacklist flag) \<Longrightarrow> toLowerCase k = k"
  by (auto simp: parse_blacklist_def toLowerCase_idem split: if_splits)

lemma ex_select_long: "selectBestMatch [ex_song ''x1'' ''Song'' ''Artist'' 500] ''Song'' ''Artist''
     = Some (ex_song ''x1'' ''Song'' ''Artist'' 500)"
  by code_simp

lemma ex_select_live: "selectBestMatch [ex_song ''x1'' ''Song (LIVE)'' ''Artist'' 200] ''Song'' ''Artist''
     = Some (ex_song ''x1'' ''Song (LIVE)'' ''Artist'' 200)"
  by code_simp

lemma ex_blacklist: "parse_blacklist (Some ''Karaoke, Live'') = [''karaoke'', ''live'']"
  by code_simp

lemma ex_contains: "contains_ci ''Song (LIVE)'' ''live''"
  unfolding contains_ci_def str_includes_iff [symmetric] by code_simp

text \<open>
  C4. When some candidate has a title equal to the target title and an artist equal to
  the target artist (both without regard to case and surrounding white space), the
  matcher selects the first such candidate of the list. When there is none, it selects
  the first candidate of the list if that one has a non-empty title and at least one
  artist, and nothing otherwise, also when the list is empty.
\<close>

theorem selectBestMatch_exact_then_first:
  "(i < length songs \<and> exact_candidate targetTitle targetArtist (songs ! i) \<and>
    (\<forall>j<i. \<not> exact_candidate targetTitle targetArtist (songs ! j))
      \<longrightarrow> selectBestMatch songs targetTitle targetArtist = Some (songs ! i)) \<and>
   ((\<forall>i<length songs. \<not> exact_candidate targetTitle targetArtist (songs ! i))
      \<longrightarrow> selectBestMatch songs targetTitle targetArtist =
          (case songs of [] \<Rightarrow> None
           | firstResult # rest \<Rightarrow> if has_title_and_artist firstResult then Some firstResult else None))"
proof (intro conjI impI)
  assume a: "i < length songs \<and> exact_candidate targetTitle targetArtist (songs ! i) \<and>
    (\<forall>j<i. \<not> exact_candidate targetTitle targetArtist (songs ! j))"
  then have "find (exact_candidate targetTitle targetArtist) songs = Some (songs ! i)"
    unfolding find_Some_iff by blast
  then show "selectBestMatch songs targetTitle targetArtist = Some (songs ! i)"
    by (simp add: selectBestMatch_def exact_match_iff [abs_def])
next
  assume "\<forall>i<length songs. \<not> exact_candidate targetTitle targetArtist (songs ! i)"
  then have "find (exact_candidate targetTitle targetArtist) songs = None"
    unfolding find_None_iff by (metis in_set_conv_nth)
  then show "selectBestMatch songs targetTitle targetArtist =
          (case songs of [] \<Rightarrow> None
           | firstResult # rest \<Rightarrow> if has_title_and_artist firstResult then Some firstResult else None)"
    by (auto simp: selectBestMatch_def exact_match_iff [abs_def] has_title_and_artist_def
             split: list.splits option.splits)
qed

theorem selectBestMatch_exact_then_first_witness:
  "selectBestMatch [ex_song ''x1'' ''Song'' ''Other'' 200, ex_song ''x2'' '' SONG '' ''Artist'' 210]
     ''Song'' ''Artist'' = Some (ex_song ''x2'' '' SONG '' ''Artist'' 210) \<and>
   selectBestMatch [ex_song ''x1'' ''Song'' ''Other'' 200] ''Song'' ''Artist''
     = Some (ex_song ''x1'' ''Song'' ''Other'' 200) \<and>
   selectBestMatch [(ex_song ''x1'' ''Song'' ''Other'' 200)\<lparr>title := Some []\<rparr>] ''Song'' ''Artist''
     = None"
proof -
  let ?a = "ex_song ''x1'' ''Song'' ''Other'' 200"
  let ?b = "ex_song ''x2'' '' SONG '' ''Artist'' 210"
  have na: "\<not> exact_candidate ''Song'' ''Artist'' ?a"
    by (simp add: exact_candidate_def equals_ci_trimmed_def ex_song_def lower_ex trim_ex)
  have nc: "\<not> exact_candidate ''Song'' ''Artist'' (?a\<lparr>title := Some []\<rparr>)"
    by (simp add: exact_candidate_def equals_ci_trimmed_def ex_song_def lower_ex trim_ex)
  have b: "exact_candidate ''Song'' ''Artist'' ?b"
    by (simp add: exact_candidate_def equals_ci_trimmed_def ex_song_def lower_ex trim_ex)
  have 1: "selectBestMatch [?a, ?b] ''Song'' ''Artist'' = Some ?b"
    using selectBestMatch_exact_then_first [of 1 "[?a, ?b]" "''Song''" "''Artist''"] na b
    by (simp add: less_Suc_eq)
  have 2: "selectBestMatch [?a] ''Song'' ''Artist'' = Some ?a"
    using selectBestMatch_exact_then_first [of 0 "[?a]" "''Song''" "''Artist''"] na
    by (simp add: has_title_and_artist_def truthy_def ex_song_def)
  have 3: "selectBestMatch [?a\<lparr>title := Some []\<rparr>] ''Song'' ''Artist'' = None"
    using selectBestMatch_exact_then_first [of 0 "[?a\<lparr>title := Some []\<rparr>]" "''Song''" "''Artist''"] nc
    by (simp add: has_title_and_artist_def truthy_def ex_song_def)
  show ?thesis using 1 2 3 by simp
qed

text \<open>
  C5, as amended. With the keyword list as the command line builds it (trimmed, in
  lower case): when the selected candidate has a duration that is not zero and exceeds
  the ceiling, or its title or one of its artist names contains a keyword without
  regard to case, the matcher returns nothing, whatever other candidates the list
  holds.
\<close>

theorem exclusion_abandons_match:
  assumes "blacklistedKeywords cfg = parse_blacklist flag"
    and "query (ttl @ '' '' @ artist) = SearchSongs songs"
    and "selectBestMatch songs ttl artist = Some song"
    and "(\<exists>d. duration song = Some d \<and> seconds d \<noteq> 0 \<and> maxDuration cfg < seconds d) \<or>
         (\<exists>k t. k \<in> set (blacklistedKeywords cfg) \<and> title song = Some t \<and> contains_ci t k) \<or>
         (\<exists>k as a. k \<in> set (blacklistedKeywords cfg) \<and> artists song = Some as \<and> a \<in> set as \<and>
                   contains_ci (name a) k)"
  shows "searchYouTubeMusic cfg query ttl artist = None"
proof -
  have inc: "str_includes (toLowerCase s) k = contains_ci s k" if "k \<in> set (blacklistedKeywords cfg)" for s k
    using that assms(1) parse_blacklist_lower [of k flag]
    by (simp add: contains_ci_def str_includes_iff)
  have "shouldSkipSong cfg song"
    using assms(4)
  proof (elim disjE exE conjE)
    fix d assume "duration song = Some d" "seconds d \<noteq> 0" "maxDuration cfg < seconds d"
    then show ?thesis by (simp add: shouldSkipSong_def)
  next
    fix k t assume k: "k \<in> set (blacklistedKeywords cfg)" and "title song = Some t" "contains_ci t k"
    then have "(case title song of None \<Rightarrow> False | Some t \<Rightarrow> str_includes (toLowerCase t) k)"
      using inc [OF k] by simp
    then show ?thesis using k unfolding shouldSkipSong_def Let_def list_ex_iff by blast
  next
    fix k as a assume k: "k \<in> set (blacklistedKeywords cfg)"
      and "artists song = Some as" "a \<in> set as" "contains_ci (name a) k"
    then have "(case artists song of None \<Rightarrow> False
                | Some as \<Rightarrow> list_ex (\<lambda>a. str_includes (toLowerCase (name a)) k) as)"
      using inc [OF k] by (auto simp: list_ex_iff)
    then show ?thesis using k unfolding shouldSkipSong_def Let_def list_ex_iff by blast
  qed
  then show ?thesis
    using assms(2,3) by (auto simp: searchYouTubeMusic_def split: option.splits)
qed

theorem exclusion_abandons_match_witness:
  "searchYouTubeMusic ex_cfg (\<lambda>q. SearchSongs [ex_song ''x1'' ''Song'' ''Artist'' 500]) ''Song'' ''Artist''
     = None \<and>
   searchYouTubeMusic (ex_cfg\<lparr>blacklistedKeywords := parse_blacklist (Some ''Karaoke, Live'')\<rparr>)
     (\<lambda>q. SearchSongs [ex_song ''x1'' ''Song (LIVE)'' ''Artist'' 200]) ''Song'' ''Artist'' = None"
proof -
  have "blacklistedKeywords ex_cfg = parse_blacklist None"
    by (simp add: ex_cfg_def parse_blacklist_def truthy_def)
  moreover have "\<exists>d. duration (ex_song ''x1'' ''Song'' ''Artist'' 500) = Some d \<and> seconds d \<noteq> 0 \<and>
      maxDuration ex_cfg < seconds d"
    by (simp add: ex_song_def ex_cfg_def)
  ultimately have 1: "searchYouTubeMusic ex_cfg (\<lambda>q. SearchSongs [ex_song ''x1'' ''Song'' ''Artist'' 500])
      ''Song'' ''Artist'' = None"
    using exclusion_abandons_match [of ex_cfg None _ "''Song''" "''Artist''", OF _ refl ex_select_long]
    by blast
  let ?cfg = "ex_cfg\<lparr>blacklistedKeywords := parse_blacklist (Some ''Karaoke, Live'')\<rparr>"
  have "blacklistedKeywords ?cfg = parse_blacklist (Some ''Karaoke, Live'')" by simp
  moreover have "\<exists>k t. k \<in> set (blacklistedKeywords ?cfg) \<and>
      title (ex_song ''x1'' ''Song (LIVE)'' ''Artist'' 200) = Some t \<and> contains_ci t k"
    using ex_contains by (auto simp: ex_blacklist ex_song_def)
  ultimately have 2: "searchYouTubeMusic ?cfg
      (\<lambda>q. SearchSongs [ex_song ''x1'' ''Song (LIVE)'' ''Artist'' 200]) ''Song'' ''Artist'' = None"
    using exclusion_abandons_match [of ?cfg _ _ "''Song''" "''Artist''", OF _ refl ex_select_live]
    by blast
  show ?thesis using 1 2 by simp
qed

text \<open>
  C5 as stated fails where the guard on the duration reads its value as a truth value:
  a candidate of zero seconds exceeds a negative ceiling and is returned.
\<close>

theorem exclusion_zero_duration_counterexample:
  "duration (ex_song ''x1'' ''Song'' ''Artist'' 0) = Some \<lparr>display_text = ''0:00'', seconds = 0\<rparr> \<and>
   maxDuration (ex_cfg\<lparr>maxDuration := - 1\<rparr>) < 0 \<and>
   selectBestMatch [ex_song ''x1'' ''Song'' ''Artist'' 0] ''Song'' ''Artist''
     = Some (ex_song ''x1'' ''Song'' ''Artist'' 0) \<and>
   searchYouTubeMusic (ex_cfg\<lparr>maxDuration := - 1\<rparr>)
     (\<lambda>q. SearchSongs [ex_song ''x1'' ''Song'' ''Artist'' 0]) ''Song'' ''Artist''
     = Some \<lparr>dl_id = ''x1'', dl_title = ''Song'', dl_thumbnails = [],
             dl_duration = \<lparr>display_text = ''0:00'', seconds = 0\<rparr>, dl_album = ([], []),
             dl_artists = [([], ''Artist'')]\<rparr>"
proof -
  have s: "selectBestMatch [ex_song ''x1'' ''Song'' ''Artist'' 0] ''Song'' ''Artist''
     = Some (ex_song ''x1'' ''Song'' ''Artist'' 0)"
    by code_simp
  have t: "trim ''Song'' \<noteq> []" "trim ''Artist'' \<noteq> []" by code_simp+
  show ?thesis
    using t by (simp add: searchYouTubeMusic_def s)
       (simp add: ex_song_def ex_cfg_def shouldSkipSong_def formatSongResult_def truthy_def)
qed

subsection \<open>Fetch orchestrator\<close>












subsection \<open>File names and the scanner\<close>

text \<open>
  When the sanitized names and the two identifiers hold no dot, the pattern for the
  catalog identifier always matches the generated file name, and its group is longer
  than the catalog identifier: it runs through the suffix of the source track
  identifier to the dot of the extension.
\<close>

lemma capture_at_dotfree:
  assumes "CHR ''.'' \<notin> set body" and "startsWith body m" and "length m < length body"
  shows "capture_at m (body @ ''.'' @ ext) = Some (drop (length m) body)"
proof -
  have sw: "startsWith (body @ ''.'' @ ext) m"
    using assms(2,3) by (simp add: startsWith_def)
  have nd: "\<forall>c\<in>set (drop (length m) body). c \<noteq> CHR ''.''"
    using assms(1) by (metis in_set_dropD)
  have dr: "drop (length m) (body @ ''.'' @ ext) = drop (length m) body @ ''.'' @ ext"
    using assms(3) by simp
  have tw: "takeWhile (\<lambda>c. c \<noteq> CHR ''.'') (drop (length m) body @ ''.'' @ ext) = drop (length m) body"
    using nd by simp
  have dw: "dropWhile (\<lambda>c. c \<noteq> CHR ''.'') (drop (length m) body @ ''.'' @ ext) = ''.'' @ ext"
    using nd by simp
  show ?thesis
    using sw assms(3) by (simp add: capture_at_def dr tw dw Let_def del: append.simps)
qed

lemma capture_at_length:
  assumes "CHR ''.'' \<notin> set body" and "capture_at m (body @ ''.'' @ ext) = Some g"
    and "length m \<le> length body"
  shows "g = drop (length m) body"
proof -
  have nd: "\<forall>c\<in>set (drop (length m) body). c \<noteq> CHR ''.''"
    using assms(1) by (metis in_set_dropD)
  have dr: "drop (length m) (body @ ''.'' @ ext) = drop (length m) body @ ''.'' @ ext"
    using assms(3) by simp
  have tw: "takeWhile (\<lambda>c. c \<noteq> CHR ''.'') (drop (length m) body @ ''.'' @ ext) = drop (length m) body"
    using nd by simp
  have "g = takeWhile (\<lambda>c. c \<noteq> CHR ''.'') (drop (length m) (body @ ''.'' @ ext))"
    using assms(2) unfolding capture_at_def Let_def
    by (simp split: if_splits del: drop_append append.simps)
  then show ?thesis by (simp only: dr tw)
qed

lemma regex_capture_overrun:
  assumes "CHR ''.'' \<notin> set (pre @ m @ rest)" and "rest \<noteq> []"
  shows "\<exists>g. regex_capture m (pre @ m @ rest @ ''.'' @ ext) = Some g \<and> length rest \<le> length g"
  using assms
proof (induction pre)
  case Nil
  have "capture_at m ((m @ rest) @ ''.'' @ ext) = Some (drop (length m) (m @ rest))"
    using Nil by (intro capture_at_dotfree) (auto simp: startsWith_def)
  then have c: "capture_at m (m @ rest @ ''.'' @ ext) = Some rest" by simp
  show ?case
  proof (cases "m @ rest @ ''.'' @ ext")
    case Nil
    then show ?thesis by simp
  next
    case (Cons a s)
    then show ?thesis using c by simp
  qed
next
  case (Cons a pre)
  let ?body = "(a # pre) @ m @ rest"
  show ?case
  proof (cases "capture_at m (?body @ ''.'' @ ext)")
    case None
    then have "regex_capture m ((a # pre) @ m @ rest @ ''.'' @ ext) =
        regex_capture m (pre @ m @ rest @ ''.'' @ ext)"
      by simp
    then show ?thesis using Cons by simp
  next
    case (Some g)
    then have "g = drop (length m) ?body"
      using Cons.prems(1) by (intro capture_at_length [of ?body m ext g]) auto
    then have "length rest \<le> length g" by simp
    moreover have "regex_capture m ((a # pre) @ m @ rest @ ''.'' @ ext) = Some g"
      using Some by simp
    ultimately show ?thesis by blast
  qed
qed

lemma catalog_pattern_overruns:
  assumes "CHR ''.'' \<notin> set (sanitizeFilename trackName)"
    and "CHR ''.'' \<notin> set (sanitizeFilename artistName)"
    and "CHR ''.'' \<notin> set ytId" and "CHR ''.'' \<notin> set trackId"
  shows "\<exists>g. regex_capture ''__ytId__'' (generateFilename trackName artistName ytId trackId @ ''.'' @ ext)
              = Some g \<and> length ytId < length g"
proof -
  let ?pre = "sanitizeFilename trackName @ ''___'' @ sanitizeFilename artistName"
  let ?rest = "ytId @ ''___trackId_'' @ trackId"
  have nd: "CHR ''.'' \<notin> set (?pre @ ''__ytId__'' @ ?rest)" using assms by simp
  have ne: "?rest \<noteq> []" by simp
  have "generateFilename trackName artistName ytId trackId @ ''.'' @ ext =
        ?pre @ ''__ytId__'' @ ?rest @ ''.'' @ ext"
    by (simp add: generateFilename_def Let_def)
  then obtain g where "regex_capture ''__ytId__''
        (generateFilename trackName artistName ytId trackId @ ''.'' @ ext) = Some g"
      "length ?rest \<le> length g"
    using regex_capture_overrun [OF nd ne, of ext] by auto
  then show ?thesis by (intro exI [of _ g]) simp
qed

text \<open>
  C1. The file name built for title Song, artist Artist, catalog identifier abc and
  source track identifier xyz, with the extension opus, evaluated: the pattern for the
  source track identifier gives xyz back, the pattern for the catalog identifier gives
  \<open>abc___trackId_xyz\<close>, since its group runs to the first dot.
\<close>

theorem filename_roundtrip_evaluated:
  "dir_entry.name ex_output_file = ''Song___Artist__ytId__abc___trackId_xyz.opus'' \<and>
   regex_capture ''__ytId__'' (dir_entry.name ex_output_file) = Some ''abc___trackId_xyz'' \<and>
   regex_capture ''___trackId_'' (dir_entry.name ex_output_file) = Some ''xyz'' \<and>
   getExistingYtIds ex_cfg (Listing [ex_output_file]) = {''abc___trackId_xyz''} \<and>
   getExistingTrackIds ex_cfg (Listing [ex_output_file]) = {''xyz''}"
proof -
  have n: "dir_entry.name ex_output_file = ''Song___Artist__ytId__abc___trackId_xyz.opus''"
    unfolding ex_output_file_def by code_simp
  have y: "regex_capture ''__ytId__'' (dir_entry.name ex_output_file) = Some ''abc___trackId_xyz''"
    unfolding n by code_simp
  have t: "regex_capture ''___trackId_'' (dir_entry.name ex_output_file) = Some ''xyz''"
    unfolding n by code_simp
  have e: "endsWith (dir_entry.name ex_output_file) (''.'' @ audioFormat ex_cfg)"
    unfolding n by code_simp
  have f: "isFile ex_output_file" by (simp add: ex_output_file_def)
  have ids: "scanOutputDirectory ex_cfg marker (Listing [ex_output_file]) =
      set (case regex_capture marker (dir_entry.name ex_output_file) of None \<Rightarrow> [] | Some g \<Rightarrow> [g])"
    for marker
    using e f by (simp add: scanOutputDirectory_def split: option.splits)
  have a: "getExistingYtIds ex_cfg (Listing [ex_output_file]) = {''abc___trackId_xyz''}"
    by (simp add: ids y getExistingYtIds_def)
  have b: "getExistingTrackIds ex_cfg (Listing [ex_output_file]) = {''xyz''}"
    by (simp add: ids t getExistingTrackIds_def)
  show ?thesis
    by (intro conjI) (rule n y t a b)+
qed

end
